theory Spec2Isabelle
  imports Main "HOL-Library.Sublist" "HOL-Library.Word"
begin

text \<open>
  A shallow embedding of \<^verbatim>\<open>packages/compiler-cli/ngcc/src/utils.ts\<close>: the type
  \<open>PartiallyOrderedList\<close> and the functions \<open>isDefined\<close>, \<open>findAll\<close>,
  \<open>resolveFileWithPostfixes\<close> and \<open>stripExtension\<close>. The first chapter holds the
  program, the second the vocabulary its properties are stated in, the third the proofs.
\<close>

chapter \<open>The program\<close>

section \<open>Strings\<close>

text \<open>
  A string of the program is a sequence of 16-bit code units. \<open>utf16\<close> writes one from
  ASCII text, whose characters are their own code units.
\<close>

type_synonym code_unit = "16 word"

type_synonym jsstring = "code_unit list"

definition utf16 :: "string \<Rightarrow> jsstring" where
  "utf16 = map of_char"

section \<open>\<open>PartiallyOrderedList\<close>\<close>

text \<open>
  \<^verbatim>\<open>
  export interface PartiallyOrderedList<T> extends Array<T> {
    _partiallyOrdered: true;

    map<U>(callbackfn: (value: T, index: number, array: PartiallyOrderedList<T>) => U,
           thisArg?: any): PartiallyOrderedList<U>;
    slice(...args: Parameters<Array<T>['slice']>): PartiallyOrderedList<T>;
  }
  \<close>

  The interface extends \<open>Array\<close> by a field whose type is the literal type \<open>true\<close>, a type
  with one value. The field is the ordered tag: a value has it exactly when it has the
  type \<open>PartiallyOrderedList\<close>. An array is dense here (no holes), so it is the list of
  its elements. (The field is written \<open>partiallyOrdered\<close>: a name cannot start with an
  underscore.)
\<close>

datatype true = true

record 'a Array =
  elems :: "'a list"

record 'a PartiallyOrderedList = "'a Array" +
  partiallyOrdered :: true

text \<open>
  The interface gives \<open>map\<close> and \<open>slice\<close> no body of their own: it re-declares the result
  type of the methods every array has. Their bodies are the built-in ones,
  \<open>Array.prototype.map\<close> and \<open>Array.prototype.slice\<close>, embedded here as the language
  standard defines them, for a callback without side effects (\<open>thisArg\<close> then plays no
  role) and for integral indices.

  \<open>map\<close>: for \<open>k\<close> from \<open>0\<close> while \<open>k < len\<close>, the result's element \<open>k\<close> is
  \<open>callbackfn(array[k], k, array)\<close>.
\<close>

function mapLoop ::
  "('a \<Rightarrow> nat \<Rightarrow> 'a PartiallyOrderedList \<Rightarrow> 'b) \<Rightarrow> 'a PartiallyOrderedList
    \<Rightarrow> nat \<Rightarrow> 'b list \<Rightarrow> 'b list" where
  "mapLoop callbackfn array k A =
     (if k < length (elems array)
      then mapLoop callbackfn array (Suc k) (A @ [callbackfn (elems array ! k) k array])
      else A)"
  by pat_completeness auto
termination
  by (relation "measure (\<lambda>(callbackfn, array, k, A). length (elems array) - k)") auto

declare mapLoop.simps [simp del]

definition mapOrdered ::
  "('a \<Rightarrow> nat \<Rightarrow> 'a PartiallyOrderedList \<Rightarrow> 'b) \<Rightarrow> 'a PartiallyOrderedList
    \<Rightarrow> 'b PartiallyOrderedList" where
  "mapOrdered callbackfn array =
     \<lparr>elems = mapLoop callbackfn array 0 [], partiallyOrdered = true\<rparr>"

text \<open>
  \<open>slice\<close>: a negative index counts from the end, and every index is clamped to
  \<open>0 .. len\<close>; a missing \<open>start\<close> is \<open>0\<close>, a missing \<open>end\<close> is \<open>len\<close>. The result holds
  the elements from \<open>k\<close> while \<open>k < final\<close>.
\<close>

definition relativeIndex :: "nat \<Rightarrow> int \<Rightarrow> nat" where
  "relativeIndex len relative =
     (if relative < 0 then nat (max (int len + relative) 0) else nat (min relative (int len)))"

function sliceLoop :: "'a PartiallyOrderedList \<Rightarrow> nat \<Rightarrow> nat \<Rightarrow> 'a list \<Rightarrow> 'a list" where
  "sliceLoop array k final A =
     (if k < final then sliceLoop array (Suc k) final (A @ [elems array ! k]) else A)"
  by pat_completeness auto
termination
  by (relation "measure (\<lambda>(array, k, final, A). final - k)") auto

declare sliceLoop.simps [simp del]

definition sliceOrdered ::
  "int option \<Rightarrow> int option \<Rightarrow> 'a PartiallyOrderedList \<Rightarrow> 'a PartiallyOrderedList" where
  "sliceOrdered start end' array =
     (let len = length (elems array);
          k = relativeIndex len (case start of None \<Rightarrow> 0 | Some relativeStart \<Rightarrow> relativeStart);
          final = relativeIndex len (case end' of None \<Rightarrow> int len | Some relativeEnd \<Rightarrow> relativeEnd)
      in \<lparr>elems = sliceLoop array k final [], partiallyOrdered = true\<rparr>)"

section \<open>\<open>isDefined\<close>\<close>

text \<open>
  \<^verbatim>\<open>
  export function isDefined<T>(value: T | undefined | null): value is T {
    return (value !== undefined) && (value !== null);
  }
  \<close>
  A value of type \<open>T | undefined | null\<close> is \<open>undefined\<close>, \<open>null\<close> or a value of \<open>T\<close>.
\<close>

datatype 'a nullable = Undefined | Null | Value 'a

definition isDefined :: "'a nullable \<Rightarrow> bool" where
  "isDefined v \<longleftrightarrow> v \<noteq> Undefined \<and> v \<noteq> Null"

section \<open>Tree search: \<open>findAll\<close>\<close>

text \<open>
  \<^verbatim>\<open>
  export function findAll<T>(node: ts.Node, test: (node: ts.Node) => node is ts.Node & T): T[] {
    const nodes: T[] = [];
    findAllVisitor(node);
    return nodes;

    function findAllVisitor(n: ts.Node) {
      if (test(n)) {
        nodes.push(n);
      } else {
        n.forEachChild(child => findAllVisitor(child));
      }
    }
  }
  \<close>

  A syntax tree node is a value with the children that \<open>forEachChild\<close> enumerates, in
  that order. The payload \<open>'a\<close> stands for everything else a node object holds, its
  identity included: two nodes with the same payload and the same children are the same
  node, so a tree whose nodes are different objects is one whose nodes are pairwise
  different values (\<open>distinct (preorder T)\<close> below).
\<close>

datatype 'a node = Node (payload: 'a) (children: "'a node list")

text \<open>
  \<open>test\<close> is an ordinary function of the caller: it may read and write state of its own.
  That state is the world \<open>'w\<close>, threaded through every call of \<open>test\<close>; the shape of the
  tree is not part of it (a predicate that restructures the tree while it is searched is
  outside this model).
\<close>

type_synonym ('a, 'w) predicate = "'a node \<Rightarrow> 'w \<Rightarrow> bool \<times> 'w"

text \<open>
  The visitor is a closure over \<open>test\<close> and the array \<open>nodes\<close>; its state is the pair of
  \<open>nodes\<close> and the world. \<open>nodes.push(n)\<close> appends. The callback handed to \<open>forEachChild\<close>
  returns what \<open>findAllVisitor\<close> returns, which is \<open>undefined\<close>, so the enumeration never
  stops early and is a left-to-right fold over the children.
\<close>

function findAllVisitor ::
  "('a, 'w) predicate \<Rightarrow> 'a node \<Rightarrow> 'a node list \<times> 'w \<Rightarrow> 'a node list \<times> 'w" where
  "findAllVisitor test n (nodes, w) =
     (case test n w of
        (True, w') \<Rightarrow> (nodes @ [n], w')
      | (False, w') \<Rightarrow>
          fold (\<lambda>child st. findAllVisitor test child st) (children n) (nodes, w'))"
  by pat_completeness auto
termination
proof (relation "measure (\<lambda>(test, n, st). size n)")
  show "wf (measure (\<lambda>(test :: ('a, 'w) predicate, n :: 'a node, st :: 'a node list \<times> 'w). size n))"
    by simp
next
  fix test :: "('a, 'w) predicate" and n child :: "'a node" and st :: "'a node list \<times> 'w"
  assume "child \<in> set (children n)"
  then have "size child < size n"
    by (cases n) (simp add: less_Suc_eq_le size_list_estimation')
  then show "((test, child, st), (test, n, nodes, w)) \<in> measure (\<lambda>(test, n, st). size n)"
    for nodes w
    by simp
qed

declare findAllVisitor.simps [simp del]

definition findAll :: "'a node \<Rightarrow> ('a, 'w) predicate \<Rightarrow> 'w \<Rightarrow> 'a node list \<times> 'w" where
  "findAll node test w = findAllVisitor test node ([], w)"

section \<open>Tree search on a store of objects\<close>

text \<open>
  In the program a node is an object that is reached by reference and can be written
  to, and \<open>nodes\<close> is an array that \<open>findAll\<close> creates. This second embedding of
  \<open>findAll\<close> keeps the objects in a store, so that what the search writes, and what a
  predicate writes, is visible: a reference is an address of the store, a node object
  holds its own data and the references of its children, an array object holds the
  references pushed to it.
\<close>

type_synonym ref = nat

datatype 'a object = NodeObject 'a "ref list" | ArrayObject "ref list"

type_synonym 'a store = "'a object list"

text \<open>The node objects of a store: what a function that is handed nodes can read.\<close>

type_synonym 'a node_view = "ref \<Rightarrow> ('a \<times> ref list) option"

definition nodeAt :: "'a store \<Rightarrow> 'a node_view" where
  "nodeAt h r =
     (if r < length h
      then (case h ! r of NodeObject a cs \<Rightarrow> Some (a, cs) | ArrayObject xs \<Rightarrow> None)
      else None)"

text \<open>\<open>test\<close> is handed a reference; it may read the store and write to it.\<close>

type_synonym 'a store_predicate = "ref \<Rightarrow> 'a store \<Rightarrow> bool \<times> 'a store"

text \<open>\<open>array.push(x)\<close> writes the array object in place.\<close>

definition push :: "ref \<Rightarrow> ref \<Rightarrow> 'a store \<Rightarrow> 'a store option" where
  "push array x h =
     (if array < length h
      then (case h ! array of
              ArrayObject xs \<Rightarrow> Some (h[array := ArrayObject (xs @ [x])])
            | NodeObject a cs \<Rightarrow> None)
      else None)"

text \<open>
  The visitor calls \<open>test\<close> first and reads the children of \<open>n\<close> afterwards, from the
  store as \<open>test\<close> left it. The references of a store may form a cycle, on which the
  recursion does not end: the visitor takes fuel, one unit for each nested call, and
  \<open>None\<close> is the run that has not returned within it. (\<open>None\<close> is also the result where
  \<open>n\<close> is not a node or \<open>nodes\<close> not an array, which the types of the program exclude.)
\<close>

fun findAllVisitor_store ::
  "nat \<Rightarrow> 'a store_predicate \<Rightarrow> ref \<Rightarrow> ref \<Rightarrow> 'a store \<Rightarrow> 'a store option" where
  "findAllVisitor_store 0 test nodes n h = None"
| "findAllVisitor_store (Suc fuel) test nodes n h =
     (case test n h of
        (True, h') \<Rightarrow> push nodes n h'
      | (False, h') \<Rightarrow>
          (case nodeAt h' n of
             None \<Rightarrow> None
           | Some (a, cs) \<Rightarrow>
               fold (\<lambda>child st. Option.bind st (findAllVisitor_store fuel test nodes child))
                 cs (Some h')))"

text \<open>\<open>const nodes = []\<close> allocates the array at a fresh address; \<open>findAll\<close> returns it.\<close>

definition findAll_store ::
  "nat \<Rightarrow> ref \<Rightarrow> 'a store_predicate \<Rightarrow> 'a store \<Rightarrow> (ref \<times> 'a store) option" where
  "findAll_store fuel node test h =
     (let nodes = length h
      in map_option (Pair nodes) (findAllVisitor_store fuel test nodes node (h @ [ArrayObject []])))"

section \<open>\<open>resolveFileWithPostfixes\<close>\<close>

text \<open>
  \<^verbatim>\<open>
  export function resolveFileWithPostfixes(
      fs: FileSystem, path: AbsoluteFsPath, postFixes: string[]): AbsoluteFsPath|null {
    for (const postFix of postFixes) {
      const testPath = absoluteFrom(path + postFix);
      if (fs.exists(testPath) && fs.stat(testPath).isFile()) {
        return testPath;
      }
    }
    return null;
  }
  \<close>

  \<open>FileSystem\<close>, \<open>AbsoluteFsPath\<close> and \<open>absoluteFrom\<close> are imported from
  \<^verbatim>\<open>../../src/ngtsc/file_system\<close>. An \<open>AbsoluteFsPath\<close> is a string; of a file system
  the function uses the two queries \<open>exists\<close> and \<open>stat(..).isFile()\<close>, taken here as the
  answers they give; \<open>absoluteFrom\<close>, which turns the string \<open>path + postFix\<close> into an
  absolute path, is a parameter. \<open>null\<close> is \<open>None\<close>.
\<close>

type_synonym AbsoluteFsPath = jsstring

record FileStats =
  isFile :: bool

record FileSystem =
  exists :: "AbsoluteFsPath \<Rightarrow> bool"
  stat :: "AbsoluteFsPath \<Rightarrow> FileStats"

fun resolveFileWithPostfixes ::
  "(jsstring \<Rightarrow> AbsoluteFsPath) \<Rightarrow> FileSystem \<Rightarrow> AbsoluteFsPath \<Rightarrow> jsstring list
    \<Rightarrow> AbsoluteFsPath option" where
  "resolveFileWithPostfixes absoluteFrom fs path [] = None"
| "resolveFileWithPostfixes absoluteFrom fs path (postFix # postFixes) =
     (let testPath = absoluteFrom (path @ postFix)
      in if exists fs testPath \<and> isFile (stat fs testPath) then Some testPath
         else resolveFileWithPostfixes absoluteFrom fs path postFixes)"

section \<open>\<open>stripExtension\<close>\<close>

text \<open>
  \<^verbatim>\<open>
  export function stripExtension(fileName: string): string {
    return fileName.replace(/\..+$/, '');
  }
  \<close>

  The regular expression has no flags. It is a sequence of three pieces: the character
  \<open>.\<close> (code unit \<open>0x2E\<close>), one or more (greedy) of any code unit that is not a line
  terminator, and the end of the input.
\<close>

definition isLineTerminator :: "code_unit \<Rightarrow> bool" where
  "isLineTerminator c \<longleftrightarrow> c = 0x000A \<or> c = 0x000D \<or> c = 0x2028 \<or> c = 0x2029"

datatype atom = Lit code_unit | Dot

datatype piece = Atom atom | OneOrMore atom | EndOfInput

fun atomMatches :: "atom \<Rightarrow> code_unit \<Rightarrow> bool" where
  "atomMatches (Lit c) x \<longleftrightarrow> x = c"
| "atomMatches Dot x \<longleftrightarrow> \<not> isLineTerminator x"

text \<open>
  A backtracking matcher: \<open>matchHere ps s\<close> matches the pieces \<open>ps\<close> at the start of \<open>s\<close>
  and returns the length of the match it finds first. A greedy repetition tries one more
  repetition before it tries the rest of the pattern.
\<close>

fun matchHere :: "piece list \<Rightarrow> jsstring \<Rightarrow> nat option" where
  "matchHere [] s = Some 0"
| "matchHere (EndOfInput # ps) s = (if s = [] then matchHere ps s else None)"
| "matchHere (Atom a # ps) [] = None"
| "matchHere (Atom a # ps) (x # xs) =
     (if atomMatches a x then map_option Suc (matchHere ps xs) else None)"
| "matchHere (OneOrMore a # ps) [] = None"
| "matchHere (OneOrMore a # ps) (x # xs) =
     (if atomMatches a x
      then (case matchHere (OneOrMore a # ps) xs of
              Some k \<Rightarrow> Some (Suc k)
            | None \<Rightarrow> map_option Suc (matchHere ps xs))
      else None)"

text \<open>
  Without the \<open>g\<close> flag \<open>replace\<close> replaces the first match, and the first match is the
  one that starts leftmost: the start positions are tried from \<open>0\<close> to the length of the
  string. \<open>search\<close> returns the start and the length of that match. The replacement
  text is spliced in as it is (it holds no \<open>$\<close> here).
\<close>

fun search :: "piece list \<Rightarrow> jsstring \<Rightarrow> (nat \<times> nat) option" where
  "search ps [] = map_option (Pair 0) (matchHere ps [])"
| "search ps (x # xs) =
     (case matchHere ps (x # xs) of
        Some k \<Rightarrow> Some (0, k)
      | None \<Rightarrow> map_option (\<lambda>(i, k). (Suc i, k)) (search ps xs))"

definition replace :: "piece list \<Rightarrow> jsstring \<Rightarrow> jsstring \<Rightarrow> jsstring" where
  "replace ps replacement s =
     (case search ps s of
        None \<Rightarrow> s
      | Some (i, k) \<Rightarrow> take i s @ replacement @ drop (i + k) s)"

definition stripExtension :: "jsstring \<Rightarrow> jsstring" where
  "stripExtension fileName = replace [Atom (Lit 0x2E), OneOrMore Dot, EndOfInput] [] fileName"

chapter \<open>Vocabulary of the properties\<close>

section \<open>Predicates handed to \<open>findAll\<close>\<close>

text \<open>A pure predicate: its answer depends on the node only, and it leaves the world alone.\<close>

definition purePredicate :: "('a node \<Rightarrow> bool) \<Rightarrow> ('a, 'w) predicate" where
  "purePredicate P n w = (P n, w)"

text \<open>A predicate that answers as \<open>P\<close> and records the node it was called on.\<close>

definition logging :: "('a node \<Rightarrow> bool) \<Rightarrow> ('a, 'a node list) predicate" where
  "logging P n visited = (P n, visited @ [n])"

text \<open>Any predicate, with a counter of its calls added to the world.\<close>

definition counting :: "('a, 'w) predicate \<Rightarrow> ('a, 'w \<times> nat) predicate" where
  "counting test n = (\<lambda>(w, calls). case test n w of (b, w') \<Rightarrow> (b, (w', Suc calls)))"

section \<open>Traversal order\<close>

text \<open>Depth-first pre-order: a node, then the pre-orders of its children from left to right.\<close>

fun preorder :: "'a node \<Rightarrow> 'a node list" where
  "preorder (Node a cs) = Node a cs # concat (map preorder cs)"

definition descendants :: "'a node \<Rightarrow> 'a node list" where
  "descendants n = concat (map preorder (children n))"

text \<open>A node of \<open>T\<close> is an outermost match when it satisfies \<open>P\<close> and none of its ancestors does.\<close>

definition outermost :: "('a node \<Rightarrow> bool) \<Rightarrow> 'a node \<Rightarrow> 'a node \<Rightarrow> bool" where
  "outermost P T n \<longleftrightarrow>
     P n \<and> (\<forall>m \<in> set (preorder T). n \<in> set (descendants m) \<longrightarrow> \<not> P m)"

text \<open>What a search with a pure predicate appends, and the nodes it calls the predicate on.\<close>

fun topMatches :: "('a node \<Rightarrow> bool) \<Rightarrow> 'a node \<Rightarrow> 'a node list" where
  "topMatches P (Node a cs) =
     (if P (Node a cs) then [Node a cs] else concat (map (topMatches P) cs))"

fun visited :: "('a node \<Rightarrow> bool) \<Rightarrow> 'a node \<Rightarrow> 'a node list" where
  "visited P (Node a cs) =
     Node a cs # (if P (Node a cs) then [] else concat (map (visited P) cs))"

text \<open>The tree \<open>A(B(D), C)\<close>.\<close>

definition exampleTree :: "string node" where
  "exampleTree = Node ''A'' [Node ''B'' [Node ''D'' []], Node ''C'' []]"

definition isBCD :: "string node \<Rightarrow> bool" where
  "isBCD n \<longleftrightarrow> payload n = ''B'' \<or> payload n = ''C'' \<or> payload n = ''D''"

section \<open>Trees in a store\<close>

text \<open>
  A pure predicate on the store: its answer is a function of the node objects and of the
  reference it is handed, and it writes nothing.
\<close>

definition purePredicate_store :: "('a node_view \<Rightarrow> ref \<Rightarrow> bool) \<Rightarrow> 'a store_predicate" where
  "purePredicate_store P n h = (P (nodeAt h) n, h)"

text \<open>
  The store holds the tree \<open>T\<close> at \<open>r\<close>: the node object at \<open>r\<close> has, in order, children
  that hold the subtrees of \<open>T\<close>. The payload of a node of \<open>T\<close> is its reference.
\<close>

fun represents :: "'a node_view \<Rightarrow> ref \<Rightarrow> ref node \<Rightarrow> bool" where
  "represents V r (Node r' ts) \<longleftrightarrow>
     r' = r \<and> (case V r of None \<Rightarrow> False | Some (a, cs) \<Rightarrow> list_all2 (represents V) cs ts)"


text \<open>The references of the nodes that \<open>findAll\<close> returns on the tree \<open>T\<close>.\<close>

definition matchRefs :: "('a node_view \<Rightarrow> ref \<Rightarrow> bool) \<Rightarrow> 'a node_view \<Rightarrow> ref node \<Rightarrow> ref list" where
  "matchRefs P V T = map payload (fst (findAll T (purePredicate (\<lambda>m. P V (payload m))) ()))"

text \<open>
  The tree \<open>A(B(D), C)\<close> in a store, and a predicate that is not pure: it answers false
  and replaces the node it is called on by a node without children.
\<close>

definition exampleStore :: "string store" where
  "exampleStore =
     [NodeObject ''A'' [1, 3], NodeObject ''B'' [2], NodeObject ''D'' [], NodeObject ''C'' []]"

definition exampleStoreTree :: "ref node" where
  "exampleStoreTree = Node 0 [Node 1 [Node 2 []], Node 3 []]"

definition isBCD_store :: "string node_view \<Rightarrow> ref \<Rightarrow> bool" where
  "isBCD_store V r \<longleftrightarrow>
     (case V r of None \<Rightarrow> False | Some (a, cs) \<Rightarrow> a = ''B'' \<or> a = ''C'' \<or> a = ''D'')"

definition pruning :: "string store_predicate" where
  "pruning n h = (False, h[n := NodeObject ''pruned'' []])"

section \<open>Example list\<close>

text \<open>The list \<open>[moduleZ, moduleY, moduleX]\<close>.\<close>

definition exampleList :: "string PartiallyOrderedList" where
  "exampleList = \<lparr>elems = [''moduleZ'', ''moduleY'', ''moduleX''], partiallyOrdered = true\<rparr>"

section \<open>Files\<close>

text \<open>The file system reports an existing entry at \<open>p\<close> that is a file.\<close>

definition isExistingFile :: "FileSystem \<Rightarrow> AbsoluteFsPath \<Rightarrow> bool" where
  "isExistingFile fs p \<longleftrightarrow> exists fs p \<and> isFile (stat fs p)"

text \<open>
  A file system with the directory \<^verbatim>\<open>/a/b\<close> and the files \<^verbatim>\<open>/a/b.ts\<close> and
  \<^verbatim>\<open>/a/b/index.ts\<close>.
\<close>

definition exampleFs :: FileSystem where
  "exampleFs =
     \<lparr>exists = (\<lambda>p. p \<in> {utf16 ''/a/b'', utf16 ''/a/b.ts'', utf16 ''/a/b/index.ts''}),
      stat = (\<lambda>p. \<lparr>isFile = (p \<noteq> utf16 ''/a/b'')\<rparr>)\<rparr>"

section \<open>Extensions\<close>

text \<open>
  Position \<open>i\<close> of \<open>s\<close> holds a \<open>.\<close> that is followed by at least one code unit
  (\<open>dotFollowedAt\<close>), and moreover by no line terminator up to the end of \<open>s\<close>
  (\<open>extensionAt\<close>).
\<close>

definition extensionAt :: "jsstring \<Rightarrow> nat \<Rightarrow> bool" where
  "extensionAt s i \<longleftrightarrow>
     i < length s \<and> s ! i = 0x2E \<and> Suc i < length s
     \<and> (\<forall>c \<in> set (drop (Suc i) s). \<not> isLineTerminator c)"

definition dotFollowedAt :: "jsstring \<Rightarrow> nat \<Rightarrow> bool" where
  "dotFollowedAt s i \<longleftrightarrow> i < length s \<and> s ! i = 0x2E \<and> Suc i < length s"

chapter \<open>Proofs\<close>

section \<open>\<open>findAll\<close>\<close>

lemma size_child: "c \<in> set (children n) \<Longrightarrow> size c < size n"
  by (cases n) (simp add: less_Suc_eq_le size_list_estimation')

text \<open>Every call of the visitor is in the domain of the recursion: the visitor terminates.\<close>

lemma findAllVisitor_total: "findAllVisitor_dom (test, n, st)"
proof (induction n arbitrary: st)
  case (Node a cs)
  show ?case
  proof (rule accpI)
    fix call
    assume "findAllVisitor_rel call (test, Node a cs, st)"
    then show "findAllVisitor_dom call"
      by (cases rule: findAllVisitor_rel.cases) (auto intro: Node.IH)
  qed
qed

subsection \<open>The visitor with a pure predicate\<close>

lemma fold_visitor_append:
  assumes "\<And>c nodes w. c \<in> set cs \<Longrightarrow> f c (nodes, w) = (nodes @ g c, w)"
  shows "fold f cs (nodes, w) = (nodes @ concat (map g cs), w)"
  using assms by (induction cs arbitrary: nodes) simp_all

lemma findAllVisitor_pure_unfold:
  "findAllVisitor (purePredicate P) n (nodes, w) =
     (if P n then (nodes @ [n], w)
      else fold (findAllVisitor (purePredicate P)) (children n) (nodes, w))"
  by (subst findAllVisitor.simps) (simp add: purePredicate_def)

lemma findAllVisitor_pure:
  "findAllVisitor (purePredicate P) n (nodes, w) = (nodes @ topMatches P n, w)"
proof (induction n arbitrary: nodes w)
  case (Node a cs)
  have "fold (findAllVisitor (purePredicate P)) cs (nodes, w)
      = (nodes @ concat (map (topMatches P) cs), w)"
    by (rule fold_visitor_append) (simp add: Node.IH)
  then show ?case
    by (simp add: findAllVisitor_pure_unfold [of _ "Node a cs"])
qed

lemma findAll_pure: "findAll T (purePredicate P) w = (topMatches P T, w)"
  by (simp add: findAll_def findAllVisitor_pure)

subsection \<open>Pre-order, descendants and sizes\<close>

lemma preorder_self: "n \<in> set (preorder n)"
  by (cases n) simp

lemma preorder_Cons: "preorder n = n # descendants n"
  by (cases n) (simp add: descendants_def)

lemma size_preorder: "m \<in> set (preorder n) \<Longrightarrow> size m \<le> size n"
proof (induction n)
  case (Node a cs)
  then show ?case
    by (auto intro: le_SucI size_list_estimation')
qed

lemma size_descendants: "m \<in> set (descendants n) \<Longrightarrow> size m < size n"
proof -
  assume "m \<in> set (descendants n)"
  then obtain c where c: "c \<in> set (children n)" and m: "m \<in> set (preorder c)"
    by (auto simp: descendants_def)
  from c have "size c < size n"
    by (rule size_child)
  with size_preorder [OF m] show ?thesis by simp
qed

lemma not_own_descendant: "m \<in> set (preorder n) \<Longrightarrow> n \<notin> set (descendants m)"
  using size_descendants size_preorder by fastforce

lemma preorder_closed: "m \<in> set (preorder n) \<Longrightarrow> set (preorder m) \<subseteq> set (preorder n)"
proof (induction n)
  case (Node a cs)
  show ?case
  proof (cases "m = Node a cs")
    case True
    then show ?thesis by simp
  next
    case False
    with Node.prems obtain c where "c \<in> set cs" "m \<in> set (preorder c)"
      by auto
    with Node.IH show ?thesis by auto
  qed
qed

lemma descendants_closed:
  "m \<in> set (preorder n) \<Longrightarrow> x \<in> set (descendants m) \<Longrightarrow> x \<in> set (preorder n)"
  using preorder_closed [of m n] by (auto simp: preorder_Cons [of m])

lemma distinct_children_preorder:
  assumes "distinct (concat (map preorder cs))"
    and "c \<in> set cs" "c' \<in> set cs" "x \<in> set (preorder c)" "x \<in> set (preorder c')"
  shows "c' = c"
proof (rule ccontr)
  assume "c' \<noteq> c"
  then have "preorder c' \<noteq> preorder c"
    by (simp add: preorder_Cons [of c] preorder_Cons [of c'])
  with assms show False
    by (auto simp: distinct_concat_iff)
qed

subsection \<open>The matches are the outermost ones\<close>

lemma topMatches_filter:
  "distinct (preorder T) \<Longrightarrow> topMatches P T = filter (outermost P T) (preorder T)"
proof (induction T)
  case (Node a cs)
  let ?T = "Node a cs"
  have dc: "distinct (concat (map preorder cs))"
    using Node.prems by simp
  show ?case
  proof (cases "P ?T")
    case True
    have "outermost P ?T ?T"
      unfolding outermost_def using True not_own_descendant by blast
    moreover have "\<not> outermost P ?T n" if "n \<in> set (concat (map preorder cs))" for n
    proof -
      from that have "n \<in> set (descendants ?T)" by (simp add: descendants_def)
      with True show ?thesis unfolding outermost_def by (meson preorder_self)
    qed
    ultimately have "filter (outermost P ?T) (preorder ?T) = [?T]"
      by (simp add: filter_empty_conv)
    with True show ?thesis by simp
  next
    case False
    have eq: "outermost P ?T n = outermost P c n"
      if c: "c \<in> set cs" and n: "n \<in> set (preorder c)" for c n
    proof
      assume "outermost P ?T n"
      with c show "outermost P c n"
        unfolding outermost_def by auto
    next
      assume o: "outermost P c n"
      have "\<not> P m" if m: "m \<in> set (preorder ?T)" and d: "n \<in> set (descendants m)" for m
      proof (cases "m = ?T")
        case True
        with False show ?thesis by simp
      next
        case False
        with m obtain c' where c': "c' \<in> set cs" "m \<in> set (preorder c')"
          by auto
        then have "n \<in> set (preorder c')"
          using d descendants_closed by blast
        with dc c c' n have "c' = c"
          by (blast intro: distinct_children_preorder)
        with c' o d show ?thesis unfolding outermost_def by blast
      qed
      with o show "outermost P ?T n"
        unfolding outermost_def by blast
    qed
    have "filter (outermost P ?T) (preorder c) = topMatches P c" if c: "c \<in> set cs" for c
    proof -
      have "distinct (preorder c)"
        using dc c by (auto simp: distinct_concat_iff)
      with Node.IH c have "topMatches P c = filter (outermost P c) (preorder c)"
        by simp
      also have "\<dots> = filter (outermost P ?T) (preorder c)"
        using eq [OF c] by (auto intro: filter_cong)
      finally show ?thesis by simp
    qed
    then have "concat (map (\<lambda>c. filter (outermost P ?T) (preorder c)) cs)
        = concat (map (topMatches P) cs)"
      by (auto intro: arg_cong [where f = concat])
    moreover have "\<not> outermost P ?T ?T"
      using False by (simp add: outermost_def)
    ultimately show ?thesis
      using False by (simp add: filter_concat o_def)
  qed
qed

lemma topMatches_satisfy: "n \<in> set (topMatches P T) \<Longrightarrow> P n"
  by (induction T) (auto split: if_splits)

lemma subseq_concat_map:
  "(\<And>c. c \<in> set cs \<Longrightarrow> subseq (f c) (g c)) \<Longrightarrow> subseq (concat (map f cs)) (concat (map g cs))"
  by (induction cs) (auto intro: list_emb_append_mono)

lemma subseq_topMatches: "subseq (topMatches P T) (preorder T)"
  by (induction T) (auto intro: subseq_concat_map)

text \<open>
  Claim C1. \<open>findAll\<close> with a pure predicate \<open>P\<close> returns only nodes that satisfy \<open>P\<close>,
  and returns them in the order of the pre-order traversal of the tree (the result is a
  subsequence of it). On a tree whose nodes are pairwise different objects, the result
  is exactly the outermost matches in pre-order, and no returned node is a descendant of
  another returned node: the subtree of a match is not searched.
\<close>

theorem findAll_outermost_preorder:
  "(\<forall>n \<in> set (fst (findAll T (purePredicate P) w)). P n)
   \<and> subseq (fst (findAll T (purePredicate P) w)) (preorder T)
   \<and> (distinct (preorder T) \<longrightarrow>
        findAll T (purePredicate P) w = (filter (outermost P T) (preorder T), w)
        \<and> (\<forall>a \<in> set (fst (findAll T (purePredicate P) w)).
            \<forall>b \<in> set (fst (findAll T (purePredicate P) w)). a \<notin> set (descendants b)))"
proof -
  have "a \<notin> set (descendants b)"
    if "a \<in> set (filter (outermost P T) (preorder T))"
      and "b \<in> set (filter (outermost P T) (preorder T))" for a b
    using that unfolding outermost_def by auto
  then have "distinct (preorder T) \<longrightarrow>
      topMatches P T = filter (outermost P T) (preorder T)
      \<and> (\<forall>a \<in> set (topMatches P T). \<forall>b \<in> set (topMatches P T). a \<notin> set (descendants b))"
    by (simp add: topMatches_filter)
  then show ?thesis
    by (simp add: findAll_pure topMatches_satisfy subseq_topMatches)
qed

theorem findAll_outermost_preorder_witness:
  "distinct (preorder exampleTree)
   \<and> findAll exampleTree (purePredicate isBCD) () =
       ([Node ''B'' [Node ''D'' []], Node ''C'' []], ())"
proof -
  have d: "distinct (preorder exampleTree)"
    by (simp add: exampleTree_def)
  with findAll_outermost_preorder [of exampleTree isBCD "()"]
  have "findAll exampleTree (purePredicate isBCD) () =
      (filter (outermost isBCD exampleTree) (preorder exampleTree), ())"
    by blast
  also have "filter (outermost isBCD exampleTree) (preorder exampleTree) =
      [Node ''B'' [Node ''D'' []], Node ''C'' []]"
    by (simp add: exampleTree_def outermost_def isBCD_def descendants_def)
  finally show ?thesis
    using d by simp
qed

subsection \<open>Which nodes the predicate is called on\<close>

lemma fold_visitor_append2:
  assumes "\<And>c nodes w. c \<in> set cs \<Longrightarrow> f c (nodes, w) = (nodes @ g c, w @ h c)"
  shows "fold f cs (nodes, w) = (nodes @ concat (map g cs), w @ concat (map h cs))"
  using assms by (induction cs arbitrary: nodes w) simp_all

lemma findAllVisitor_logging_unfold:
  "findAllVisitor (logging P) n (nodes, log) =
     (if P n then (nodes @ [n], log @ [n])
      else fold (findAllVisitor (logging P)) (children n) (nodes, log @ [n]))"
  by (subst findAllVisitor.simps) (simp add: logging_def)

lemma findAllVisitor_logging:
  "findAllVisitor (logging P) n (nodes, log) = (nodes @ topMatches P n, log @ visited P n)"
proof (induction n arbitrary: nodes log)
  case (Node a cs)
  have "fold (findAllVisitor (logging P)) cs (nodes, log @ [Node a cs])
      = (nodes @ concat (map (topMatches P) cs),
         (log @ [Node a cs]) @ concat (map (visited P) cs))"
    by (rule fold_visitor_append2) (simp add: Node.IH)
  then show ?case
    by (simp add: findAllVisitor_logging_unfold [of _ "Node a cs"])
qed

lemma findAll_logging: "findAll T (logging P) log = (topMatches P T, log @ visited P T)"
  by (simp add: findAll_def findAllVisitor_logging)

lemma topMatches_never: "topMatches (\<lambda>_. False) T = []"
  by (induction T) simp

lemma topMatches_always: "topMatches (\<lambda>_. True) T = [T]"
  by (cases T) simp

lemma visited_never: "visited (\<lambda>_. False) T = preorder T"
  by (induction T) (simp cong: map_cong)

lemma visited_always: "visited (\<lambda>_. True) T = [T]"
  by (cases T) simp

lemma subseq_visited: "subseq (visited P T) (preorder T)"
  by (induction T) (auto intro: subseq_concat_map)

lemma findAllVisitor_never:
  "findAllVisitor (\<lambda>n w. (False, effect n w)) n (nodes, w) = (nodes, fold effect (preorder n) w)"
proof (induction n arbitrary: w)
  case (Node a cs)
  have "fold (findAllVisitor (\<lambda>n w. (False, effect n w))) cs (nodes, w') =
      (nodes, fold effect (concat (map preorder cs)) w')" for w'
    using Node.IH by (induction cs arbitrary: w') simp_all
  then show ?case
    by (simp add: findAllVisitor.simps [of _ "Node a cs"])
qed

lemma findAllVisitor_always:
  "findAllVisitor (\<lambda>n w. (True, effect n w)) n (nodes, w) = (nodes @ [n], effect n w)"
  by (simp add: findAllVisitor.simps)

text \<open>
  Claim C2. A predicate that answers false on every node yields the empty sequence,
  and whatever else it does it does for every node of the tree, in pre-order. A
  predicate that answers true on every node yields the root alone, and whatever else it
  does it does for the root only: no other node is visited. So a predicate that only
  records the nodes it is called on records the root and nothing else.
\<close>

theorem findAll_constant_predicate:
  "findAll T (\<lambda>n w. (False, effect n w)) w = ([], fold effect (preorder T) w)
   \<and> findAll T (\<lambda>n w. (True, effect n w)) w = ([T], effect T w)
   \<and> findAll T (purePredicate (\<lambda>_. False)) w = ([], w)
   \<and> findAll T (purePredicate (\<lambda>_. True)) w = ([T], w)
   \<and> findAll T (logging (\<lambda>_. False)) [] = ([], preorder T)
   \<and> findAll T (logging (\<lambda>_. True)) [] = ([T], [T])"
  by (simp add: findAll_def findAllVisitor_never findAllVisitor_always
      findAllVisitor_pure findAllVisitor_logging topMatches_never topMatches_always
      visited_never visited_always)

subsection \<open>The search on a store\<close>

lemma nodeAt_update_array:
  "array < length h \<Longrightarrow> h ! array = ArrayObject xs \<Longrightarrow>
   nodeAt (h[array := ArrayObject ys]) = nodeAt h"
  by (rule ext) (auto simp: nodeAt_def nth_list_update)

lemma nodeAt_append_array: "nodeAt (h @ [ArrayObject xs]) = nodeAt h"
  by (rule ext) (auto simp: nodeAt_def nth_append less_Suc_eq)

lemma fold_children_store:
  assumes "list_all2 (represents V) cs ts"
    and "\<And>c t h xs. t \<in> set ts \<Longrightarrow> represents V c t \<Longrightarrow> nodeAt h = V \<Longrightarrow>
      nodes < length h \<Longrightarrow> h ! nodes = ArrayObject xs \<Longrightarrow>
      visit c h = Some (h[nodes := ArrayObject (xs @ g t)])"
    and "nodeAt h = V" "nodes < length h" "h ! nodes = ArrayObject xs"
  shows "fold (\<lambda>child st. Option.bind st (visit child)) cs (Some h) =
      Some (h[nodes := ArrayObject (xs @ concat (map g ts))])"
  using assms
proof (induction cs ts arbitrary: h xs rule: list_all2_induct)
  case Nil
  then have "h[nodes := ArrayObject xs] = h"
    by (metis list_update_id)
  then show ?case
    by simp
next
  case (Cons c cs t ts)
  let ?h1 = "h[nodes := ArrayObject (xs @ g t)]"
  have v: "visit c h = Some ?h1"
    using Cons.prems(1) [of t c h xs] Cons.hyps(1) Cons.prems(2-4) by simp
  have "fold (\<lambda>child st. Option.bind st (visit child)) cs (Some ?h1) =
      Some (?h1[nodes := ArrayObject ((xs @ g t) @ concat (map g ts))])"
  proof (rule Cons.IH)
    show "nodeAt ?h1 = V"
      using Cons.prems(2-4) by (simp add: nodeAt_update_array)
    show "nodes < length ?h1" "?h1 ! nodes = ArrayObject (xs @ g t)"
      using Cons.prems(3) by simp_all
    show "visit c' h' = Some (h'[nodes := ArrayObject (xs' @ g t')])"
      if "t' \<in> set ts" "represents V c' t'" "nodeAt h' = V" "nodes < length h'"
        "h' ! nodes = ArrayObject xs'" for c' t' h' xs'
      using that Cons.prems(1) [of t' c' h' xs'] by simp
  qed
  with v show ?case
    by simp
qed

lemma findAllVisitor_store_pure_unfold:
  "findAllVisitor_store (Suc fuel) (purePredicate_store P) nodes n h =
     (if P (nodeAt h) n then push nodes n h
      else (case nodeAt h n of
              None \<Rightarrow> None
            | Some (a, cs) \<Rightarrow>
                fold (\<lambda>child st.
                    Option.bind st (findAllVisitor_store fuel (purePredicate_store P) nodes child))
                  cs (Some h)))"
  by (simp add: purePredicate_store_def)

lemma findAllVisitor_store_pure:
  "represents V n T \<Longrightarrow> nodeAt h = V \<Longrightarrow> nodes < length h \<Longrightarrow> h ! nodes = ArrayObject xs \<Longrightarrow>
   length (preorder T) \<le> fuel \<Longrightarrow>
   findAllVisitor_store fuel (purePredicate_store P) nodes n h =
     Some (h[nodes := ArrayObject (xs @ map payload (topMatches (\<lambda>m. P V (payload m)) T))])"
proof (induction T arbitrary: n h xs fuel)
  case (Node r ts)
  from Node.prems(5) obtain k where fuel: "fuel = Suc k" and k: "length (concat (map preorder ts)) \<le> k"
    by (cases fuel) simp_all
  from Node.prems(1) have r: "r = n" by simp
  show ?case
  proof (cases "P V n")
    case True
    with Node.prems(2-4) r show ?thesis
      by (simp add: fuel findAllVisitor_store_pure_unfold push_def del: findAllVisitor_store.simps)
  next
    case False
    from Node.prems(1) r obtain a cs where n: "V n = Some (a, cs)"
      and cs: "list_all2 (represents V) cs ts"
      by (auto split: option.splits)
    have "fold (\<lambda>child st. Option.bind st (findAllVisitor_store k (purePredicate_store P) nodes child))
        cs (Some h) =
      Some (h[nodes := ArrayObject (xs @ concat (map (\<lambda>t. map payload (topMatches (\<lambda>m. P V (payload m)) t)) ts))])"
    proof (rule fold_children_store [OF cs _ Node.prems(2-4)])
      fix c t h' xs'
      assume t: "t \<in> set ts" and "represents V c t" "nodeAt h' = V" "nodes < length h'"
        "h' ! nodes = ArrayObject xs'"
      moreover from t k have "length (preorder t) \<le> k"
        by (induction ts) auto
      ultimately show "findAllVisitor_store k (purePredicate_store P) nodes c h' =
          Some (h'[nodes := ArrayObject (xs' @ map payload (topMatches (\<lambda>m. P V (payload m)) t))])"
        by (rule Node.IH)
    qed
    with False n r Node.prems(2) show ?thesis
      by (simp add: fuel findAllVisitor_store_pure_unfold map_concat o_def
          del: findAllVisitor_store.simps)
  qed
qed


lemma findAll_store_pure:
  assumes "represents (nodeAt h) root T" and "length (preorder T) \<le> fuel"
  shows "findAll_store fuel root (purePredicate_store P) h =
      Some (length h, h @ [ArrayObject (matchRefs P (nodeAt h) T)])"
proof -
  let ?h1 = "h @ [ArrayObject []]"
  have "findAllVisitor_store fuel (purePredicate_store P) (length h) root ?h1 =
      Some (?h1[length h := ArrayObject ([] @ map payload (topMatches (\<lambda>m. P (nodeAt h) (payload m)) T))])"
    using assms by (intro findAllVisitor_store_pure) (simp_all add: nodeAt_append_array)
  then show ?thesis
    by (simp add: findAll_store_def matchRefs_def findAll_pure)
qed

text \<open>
  The store can tell a search that writes from one that does not: with the predicate
  \<open>pruning\<close> the root is another object afterwards. And the fuel is needed: on a node
  that is its own child the visitor does not return, whatever the fuel.
\<close>

lemma findAll_store_pruning:
  "findAll_store 4 0 pruning exampleStore =
     Some (4, [NodeObject ''pruned'' [], NodeObject ''B'' [2], NodeObject ''D'' [],
               NodeObject ''C'' [], ArrayObject []])"
  by (simp add: findAll_store_def pruning_def exampleStore_def nodeAt_def numeral_nat)

lemma findAllVisitor_store_cyclic:
  "findAllVisitor_store fuel (purePredicate_store (\<lambda>V r. False)) 1 0
     [NodeObject a [0], ArrayObject []] = None"
  by (induction fuel) (simp_all add: purePredicate_store_def nodeAt_def)

text \<open>
  Claim C6. Let the store hold a tree at \<open>root\<close>, and let the predicate be pure. Then
  \<open>findAll\<close> returns, in a new array, the references of the nodes that the search of the
  tree returns, and leaves every object of the store as it was: the store after the
  call is the store before it with the new array added. No node of the tree, and
  nothing else, is written to. A second invocation with the same root and predicate,
  run on the store the first one left, returns a new array with the same sequence, and
  again leaves every other object as it was.
\<close>

theorem findAll_store_deterministic_frame:
  assumes "represents (nodeAt h) root T"
    and "length (preorder T) \<le> fuel" and "length (preorder T) \<le> fuel'"
  shows "findAll_store fuel root (purePredicate_store P) h =
      Some (length h, h @ [ArrayObject (matchRefs P (nodeAt h) T)])
    \<and> findAll_store fuel' root (purePredicate_store P) (h @ [ArrayObject (matchRefs P (nodeAt h) T)]) =
      Some (Suc (length h),
        h @ [ArrayObject (matchRefs P (nodeAt h) T), ArrayObject (matchRefs P (nodeAt h) T)])"
proof -
  let ?h' = "h @ [ArrayObject (matchRefs P (nodeAt h) T)]"
  have v: "nodeAt ?h' = nodeAt h"
    by (rule nodeAt_append_array)
  with assms(1) have "represents (nodeAt ?h') root T"
    by simp
  from findAll_store_pure [OF this assms(3), of P] v
  have "findAll_store fuel' root (purePredicate_store P) ?h' =
      Some (Suc (length h), ?h' @ [ArrayObject (matchRefs P (nodeAt h) T)])"
    by simp
  with findAll_store_pure [OF assms(1,2), of P] show ?thesis
    by simp
qed

theorem findAll_store_deterministic_frame_witness:
  "represents (nodeAt exampleStore) 0 exampleStoreTree
   \<and> length (preorder exampleStoreTree) \<le> 4
   \<and> findAll_store 4 0 (purePredicate_store isBCD_store) exampleStore =
       Some (4, exampleStore @ [ArrayObject [1, 3]])
   \<and> findAll_store 4 0 (purePredicate_store isBCD_store) (exampleStore @ [ArrayObject [1, 3]]) =
       Some (5, exampleStore @ [ArrayObject [1, 3], ArrayObject [1, 3]])"
proof -
  have r: "represents (nodeAt exampleStore) 0 exampleStoreTree"
    by (simp add: exampleStore_def exampleStoreTree_def nodeAt_def)
  have l: "length (preorder exampleStoreTree) \<le> 4"
    by (simp add: exampleStoreTree_def)
  have m: "matchRefs isBCD_store (nodeAt exampleStore) exampleStoreTree = [1, 3]"
    by (simp add: matchRefs_def findAll_pure exampleStore_def exampleStoreTree_def nodeAt_def
        isBCD_store_def)
  have n: "length exampleStore = 4"
    by (simp add: exampleStore_def)
  from findAll_store_deterministic_frame [OF r l l, of isBCD_store] r l show ?thesis
    by (simp add: m n)
qed

subsection \<open>How often the predicate is called\<close>

lemma fold_visitor_counting:
  assumes "\<And>c nodes w k. c \<in> set cs \<Longrightarrow>
      \<exists>m \<le> length (preorder c).
        f' c (nodes, (w, k)) = (fst (f c (nodes, w)), (snd (f c (nodes, w)), k + m))"
  shows "\<exists>m \<le> length (concat (map preorder cs)).
      fold f' cs (nodes, (w, k)) = (fst (fold f cs (nodes, w)), (snd (fold f cs (nodes, w)), k + m))"
  using assms
proof (induction cs arbitrary: nodes w k)
  case Nil
  then show ?case by simp
next
  case (Cons c cs)
  obtain nodes1 w1 where f: "f c (nodes, w) = (nodes1, w1)"
    by (cases "f c (nodes, w)")
  from Cons.prems [of c nodes w k] f obtain m1
    where m1: "m1 \<le> length (preorder c)" and f': "f' c (nodes, (w, k)) = (nodes1, (w1, k + m1))"
    by auto
  from Cons.IH [of nodes1 w1 "k + m1"] Cons.prems obtain m2
    where m2: "m2 \<le> length (concat (map preorder cs))"
      and r: "fold f' cs (nodes1, (w1, k + m1)) =
        (fst (fold f cs (nodes1, w1)), (snd (fold f cs (nodes1, w1)), k + m1 + m2))"
    by auto
  show ?case
  proof (intro exI conjI)
    show "m1 + m2 \<le> length (concat (map preorder (c # cs)))"
      using m1 m2 by simp
    show "fold f' (c # cs) (nodes, (w, k)) =
        (fst (fold f (c # cs) (nodes, w)), (snd (fold f (c # cs) (nodes, w)), k + (m1 + m2)))"
      using f f' r by (simp add: add.assoc)
  qed
qed

lemma findAllVisitor_counting:
  "\<exists>m \<le> length (preorder n).
     findAllVisitor (counting test) n (nodes, (w, k)) =
       (fst (findAllVisitor test n (nodes, w)), (snd (findAllVisitor test n (nodes, w)), k + m))"
proof (induction n arbitrary: nodes w k)
  case (Node a cs)
  let ?n = "Node a cs"
  obtain b w' where t: "test ?n w = (b, w')"
    by (cases "test ?n w")
  show ?case
  proof (cases b)
    case True
    with t have "findAllVisitor (counting test) ?n (nodes, (w, k)) =
        (fst (findAllVisitor test ?n (nodes, w)), (snd (findAllVisitor test ?n (nodes, w)), k + 1))"
      by (simp add: findAllVisitor.simps [of _ ?n] counting_def)
    then show ?thesis
      by (intro exI [of _ 1]) simp
  next
    case False
    from fold_visitor_counting [of cs "findAllVisitor (counting test)" "findAllVisitor test"
        nodes w' "Suc k"] Node.IH
    obtain m where m: "m \<le> length (concat (map preorder cs))"
      and r: "fold (findAllVisitor (counting test)) cs (nodes, (w', Suc k)) =
        (fst (fold (findAllVisitor test) cs (nodes, w')),
         (snd (fold (findAllVisitor test) cs (nodes, w')), Suc k + m))"
      by blast
    from False t r have "findAllVisitor (counting test) ?n (nodes, (w, k)) =
        (fst (findAllVisitor test ?n (nodes, w)),
         (snd (findAllVisitor test ?n (nodes, w)), k + Suc m))"
      by (simp add: findAllVisitor.simps [of _ ?n] counting_def)
    with m show ?thesis
      by (intro exI [of _ "Suc m"]) simp
  qed
qed

text \<open>
  Claim C7. The visitor terminates on every tree: every call is in the domain of its
  recursion. Its work is bounded by the size of the tree: whatever the predicate does,
  it is called at most once per node of the tree (and counting the calls changes neither
  the result nor what the predicate does to the world), and when the predicate is pure
  the nodes it is called on are a subsequence of the pre-order traversal.
\<close>

theorem findAllVisitor_terminates_linear:
  "findAllVisitor_dom (test, T, (nodes, w))
   \<and> fst (findAll T (counting test) (w, 0)) = fst (findAll T test w)
   \<and> fst (snd (findAll T (counting test) (w, 0))) = snd (findAll T test w)
   \<and> snd (snd (findAll T (counting test) (w, 0))) \<le> length (preorder T)
   \<and> subseq (snd (findAll T (logging P) [])) (preorder T)"
proof -
  from findAllVisitor_counting [of T test "[]" w 0]
  obtain m where "m \<le> length (preorder T)"
    and "findAll T (counting test) (w, 0) = (fst (findAll T test w), (snd (findAll T test w), m))"
    by (auto simp: findAll_def)
  then show ?thesis
    by (simp add: findAllVisitor_total findAll_logging subseq_visited)
qed

section \<open>\<open>PartiallyOrderedList\<close>\<close>

lemma mapLoop_eq:
  "k \<le> length (elems array) \<Longrightarrow>
   mapLoop callbackfn array k A = A @ map (\<lambda>i. callbackfn (elems array ! i) i array) [k ..< length (elems array)]"
proof (induction callbackfn array k A rule: mapLoop.induct)
  case (1 callbackfn array k A)
  show ?case
  proof (cases "k < length (elems array)")
    case True
    with "1.IH" show ?thesis
      by (subst mapLoop.simps) (simp add: upt_conv_Cons)
  next
    case False
    with "1.prems" show ?thesis
      by (subst mapLoop.simps) simp
  qed
qed

lemma elems_mapOrdered:
  "elems (mapOrdered callbackfn array) = map (\<lambda>i. callbackfn (elems array ! i) i array) [0 ..< length (elems array)]"
  by (simp add: mapOrdered_def mapLoop_eq)

lemma sliceLoop_eq:
  "k \<le> final \<Longrightarrow> sliceLoop array k final A = A @ map (\<lambda>i. elems array ! i) [k ..< final]"
proof (induction array k final A rule: sliceLoop.induct)
  case (1 array k final A)
  show ?case
  proof (cases "k < final")
    case True
    with "1.IH" show ?thesis
      by (subst sliceLoop.simps) (simp add: upt_conv_Cons)
  next
    case False
    with "1.prems" show ?thesis
      by (subst sliceLoop.simps) simp
  qed
qed

lemma true_unique: "(s :: true) = t"
  by (cases s, cases t) simp

lemma map_nth_fun: "map (\<lambda>i. f (xs ! i)) [0 ..< length xs] = map f xs"
  by (rule nth_equalityI) simp_all

lemma map_nth_range: "j \<le> length xs \<Longrightarrow> map ((!) xs) [i ..< j] = take (j - i) (drop i xs)"
  by (rule nth_equalityI) simp_all

lemma relativeIndex_in_range: "i \<le> len \<Longrightarrow> relativeIndex len (int i) = i"
  by (simp add: relativeIndex_def)

lemma elems_sliceOrdered:
  "i \<le> j \<Longrightarrow> j \<le> length (elems L) \<Longrightarrow>
   elems (sliceOrdered (Some (int i)) (Some (int j)) L) = take (j - i) (drop i (elems L))"
  by (simp add: sliceOrdered_def relativeIndex_in_range sliceLoop_eq map_nth_range)

text \<open>
  Claim C3. \<open>map\<close> on a partially ordered list returns a partially ordered list of the
  same length whose element at every position \<open>i\<close> is the callback applied to the
  element of the list at \<open>i\<close> (with \<open>i\<close> and the list as its further arguments); for a
  transform \<open>F\<close> of the element alone the result is \<open>F\<close> applied elementwise, in the
  same order; and the result carries the ordered tag.
\<close>

theorem mapOrdered_pointwise:
  "length (elems (mapOrdered callbackfn L)) = length (elems L)
   \<and> (\<forall>i < length (elems L). elems (mapOrdered callbackfn L) ! i = callbackfn (elems L ! i) i L)
   \<and> elems (mapOrdered (\<lambda>value index array. F value) L) = map F (elems L)
   \<and> partiallyOrdered (mapOrdered callbackfn L) = true"
  by (simp add: elems_mapOrdered map_nth_fun true_unique)

theorem mapOrdered_pointwise_witness:
  "(1 :: nat) < length (elems exampleList)
   \<and> elems (mapOrdered (\<lambda>value index array. value @ ''.js'') exampleList) ! 1 = ''moduleY.js''
   \<and> elems (mapOrdered (\<lambda>value index array. value @ ''.js'') exampleList) =
       [''moduleZ.js'', ''moduleY.js'', ''moduleX.js'']"
proof -
  let ?f = "\<lambda>(value :: string) (index :: nat) (array :: string PartiallyOrderedList). value @ ''.js''"
  have l: "(1 :: nat) < length (elems exampleList)"
    by (simp add: exampleList_def)
  from mapOrdered_pointwise [of ?f exampleList "\<lambda>value. value @ ''.js''"]
  have all: "\<forall>i < length (elems exampleList).
      elems (mapOrdered ?f exampleList) ! i = ?f (elems exampleList ! i) i exampleList"
    and m: "elems (mapOrdered ?f exampleList) = map (\<lambda>value. value @ ''.js'') (elems exampleList)"
    by blast+
  from all l have "elems (mapOrdered ?f exampleList) ! 1 = ?f (elems exampleList ! 1) 1 exampleList"
    by blast
  with l m show ?thesis
    by (simp add: exampleList_def)
qed

text \<open>
  Claim C4. For a range \<open>[i, j)\<close> with \<open>i \<le> j \<le> length\<close>, \<open>slice(i, j)\<close> on a partially
  ordered list holds the elements of the list at the positions \<open>i\<close> to \<open>j - 1\<close>, in that
  order, and carries the ordered tag; the slice of the full range, with its bounds given
  or left out, equals the list.
\<close>

theorem sliceOrdered_range:
  "(i \<le> j \<and> j \<le> length (elems L) \<longrightarrow>
      elems (sliceOrdered (Some (int i)) (Some (int j)) L) = take (j - i) (drop i (elems L))
      \<and> length (elems (sliceOrdered (Some (int i)) (Some (int j)) L)) = j - i
      \<and> (\<forall>k < j - i. elems (sliceOrdered (Some (int i)) (Some (int j)) L) ! k = elems L ! (i + k))
      \<and> partiallyOrdered (sliceOrdered (Some (int i)) (Some (int j)) L) = true)
   \<and> sliceOrdered (Some 0) (Some (int (length (elems L)))) L = L
   \<and> sliceOrdered None None L = L"
proof -
  have full: "sliceOrdered (Some 0) (Some (int (length (elems L)))) L = L"
    using elems_sliceOrdered [of 0 "length (elems L)" L]
    by (intro PartiallyOrderedList.equality) (simp_all add: true_unique)
  have "sliceOrdered None None L = sliceOrdered (Some 0) (Some (int (length (elems L)))) L"
    by (simp add: sliceOrdered_def)
  with full show ?thesis
    by (auto simp: elems_sliceOrdered true_unique)
qed

theorem sliceOrdered_range_witness:
  "(0 :: nat) \<le> 2 \<and> (2 :: nat) \<le> length (elems exampleList)
   \<and> elems (sliceOrdered (Some (int 0)) (Some (int 2)) exampleList) = [''moduleZ'', ''moduleY'']
   \<and> elems (sliceOrdered (Some (int 0)) (Some (int 2)) exampleList) ! 1 = elems exampleList ! 1"
proof -
  have h: "(0 :: nat) \<le> 2 \<and> (2 :: nat) \<le> length (elems exampleList)"
    by (simp add: exampleList_def)
  with sliceOrdered_range [of 0 2 exampleList]
  have e: "elems (sliceOrdered (Some (int 0)) (Some (int 2)) exampleList) =
      take (2 - 0) (drop 0 (elems exampleList))"
    and n: "\<forall>k < 2 - 0.
      elems (sliceOrdered (Some (int 0)) (Some (int 2)) exampleList) ! k = elems exampleList ! (0 + k)"
    by blast+
  from n have "elems (sliceOrdered (Some (int 0)) (Some (int 2)) exampleList) ! 1 =
      elems exampleList ! 1"
    by simp
  with h e show ?thesis
    by (simp add: exampleList_def)
qed

section \<open>\<open>isDefined\<close>\<close>

text \<open>
  Claim C8. \<open>isDefined v\<close> is true exactly when \<open>v\<close> is neither \<open>undefined\<close> nor \<open>null\<close>,
  and that is exactly when \<open>v\<close> is a value of \<open>T\<close>.
\<close>

theorem isDefined_iff:
  "(isDefined v \<longleftrightarrow> v \<noteq> Undefined \<and> v \<noteq> Null)
   \<and> (isDefined v \<longleftrightarrow> (\<exists>x. v = Value x))"
  by (cases v) (simp_all add: isDefined_def)

section \<open>\<open>resolveFileWithPostfixes\<close>\<close>

lemma resolve_find:
  "resolveFileWithPostfixes absoluteFrom fs path postFixes =
     find (isExistingFile fs) (map (\<lambda>postFix. absoluteFrom (path @ postFix)) postFixes)"
  by (induction postFixes) (simp_all add: isExistingFile_def Let_def)

lemma resolve_None:
  "resolveFileWithPostfixes absoluteFrom fs path postFixes = None
     \<longleftrightarrow> (\<forall>postFix \<in> set postFixes. \<not> isExistingFile fs (absoluteFrom (path @ postFix)))"
  by (simp add: resolve_find find_None_iff)

lemma resolve_Some:
  "resolveFileWithPostfixes absoluteFrom fs path postFixes = Some r
     \<longleftrightarrow> (\<exists>i < length postFixes.
           r = absoluteFrom (path @ postFixes ! i)
           \<and> isExistingFile fs (absoluteFrom (path @ postFixes ! i))
           \<and> (\<forall>j < i. \<not> isExistingFile fs (absoluteFrom (path @ postFixes ! j))))"
  by (auto simp: resolve_find find_Some_iff)

text \<open>
  Claim C9. The postfixes are tried in the order given. The result is a path \<open>r\<close> exactly
  when \<open>r\<close> is the absolute path made from \<open>path\<close> and the first postfix of the list for
  which the file system reports an existing entry that is a file; it is \<open>null\<close> exactly
  when no postfix of the list gives such a file, so also for the empty list.
\<close>

theorem resolveFileWithPostfixes_first_file:
  "(resolveFileWithPostfixes absoluteFrom fs path postFixes = Some r
      \<longleftrightarrow> (\<exists>i < length postFixes.
            r = absoluteFrom (path @ postFixes ! i)
            \<and> isExistingFile fs (absoluteFrom (path @ postFixes ! i))
            \<and> (\<forall>j < i. \<not> isExistingFile fs (absoluteFrom (path @ postFixes ! j)))))
   \<and> (resolveFileWithPostfixes absoluteFrom fs path postFixes = None
      \<longleftrightarrow> (\<forall>postFix \<in> set postFixes. \<not> isExistingFile fs (absoluteFrom (path @ postFix))))
   \<and> resolveFileWithPostfixes absoluteFrom fs path [] = None"
  by (simp add: resolve_Some resolve_None)

theorem resolveFileWithPostfixes_first_file_witness:
  "isExistingFile exampleFs (utf16 ''/a/b.ts'')
   \<and> \<not> isExistingFile exampleFs (utf16 ''/a/b'')
   \<and> resolveFileWithPostfixes (\<lambda>p. p) exampleFs (utf16 ''/a/b'')
        [utf16 '''', utf16 ''.ts'', utf16 ''/index.ts''] = Some (utf16 ''/a/b.ts'')
   \<and> \<not> isExistingFile exampleFs (utf16 ''/a/c'')
   \<and> \<not> isExistingFile exampleFs (utf16 ''/a/c.ts'')
   \<and> resolveFileWithPostfixes (\<lambda>p. p) exampleFs (utf16 ''/a/c'')
        [utf16 '''', utf16 ''.ts''] = None"
proof -
  let ?pf = "[utf16 '''', utf16 ''.ts'', utf16 ''/index.ts'']"
  have f: "isExistingFile exampleFs (utf16 ''/a/b.ts'')"
    and d: "\<not> isExistingFile exampleFs (utf16 ''/a/b'')"
    and c: "\<not> isExistingFile exampleFs (utf16 ''/a/c'')"
      "\<not> isExistingFile exampleFs (utf16 ''/a/c.ts'')"
    by (simp_all add: isExistingFile_def exampleFs_def utf16_def)
  have "\<exists>i < length ?pf.
      utf16 ''/a/b.ts'' = (\<lambda>p. p) (utf16 ''/a/b'' @ ?pf ! i)
      \<and> isExistingFile exampleFs ((\<lambda>p. p) (utf16 ''/a/b'' @ ?pf ! i))
      \<and> (\<forall>j < i. \<not> isExistingFile exampleFs ((\<lambda>p. p) (utf16 ''/a/b'' @ ?pf ! j)))"
    using f d by (intro exI [of _ 1]) (simp add: utf16_def)
  with resolveFileWithPostfixes_first_file
    [of "\<lambda>p. p" exampleFs "utf16 ''/a/b''" ?pf "utf16 ''/a/b.ts''"]
  have 1: "resolveFileWithPostfixes (\<lambda>p. p) exampleFs (utf16 ''/a/b'') ?pf = Some (utf16 ''/a/b.ts'')"
    by blast
  have "\<forall>postFix \<in> set [utf16 '''', utf16 ''.ts''].
      \<not> isExistingFile exampleFs ((\<lambda>p. p) (utf16 ''/a/c'' @ postFix))"
    using c by (simp add: utf16_def)
  with resolveFileWithPostfixes_first_file
    [of "\<lambda>p. p" exampleFs "utf16 ''/a/c''" "[utf16 '''', utf16 ''.ts'']"]
  have 2: "resolveFileWithPostfixes (\<lambda>p. p) exampleFs (utf16 ''/a/c'')
      [utf16 '''', utf16 ''.ts''] = None"
    by blast
  from f d c 1 2 show ?thesis by simp
qed


section \<open>\<open>stripExtension\<close>\<close>

lemma matchHere_dots:
  "matchHere [OneOrMore Dot, EndOfInput] s =
     (if s \<noteq> [] \<and> (\<forall>c \<in> set s. \<not> isLineTerminator c) then Some (length s) else None)"
  by (induction s) auto

lemma matchHere_extension:
  "matchHere [Atom (Lit 0x2E), OneOrMore Dot, EndOfInput] s =
     (if extensionAt s 0 then Some (length s) else None)"
proof (cases s)
  case Nil
  then show ?thesis by (simp add: extensionAt_def)
next
  case (Cons x xs)
  then show ?thesis
    by (cases xs) (auto simp: matchHere_dots extensionAt_def simp del: matchHere.simps(6))
qed

lemma extensionAt_Suc: "extensionAt (x # xs) (Suc i) = extensionAt xs i"
  by (simp add: extensionAt_def)

lemma search_extension_None:
  "search [Atom (Lit 0x2E), OneOrMore Dot, EndOfInput] s = None
     \<longleftrightarrow> (\<forall>i < length s. \<not> extensionAt s i)"
proof (induction s)
  case Nil
  then show ?case by (simp add: matchHere_extension extensionAt_def)
next
  case (Cons x xs)
  have "(\<forall>i < length (x # xs). \<not> extensionAt (x # xs) i)
      \<longleftrightarrow> \<not> extensionAt (x # xs) 0 \<and> (\<forall>i < length xs. \<not> extensionAt xs i)"
    by (auto simp: All_less_Suc2 extensionAt_Suc)
  with Cons.IH show ?case
    by (simp add: matchHere_extension del: matchHere.simps)
qed

lemma search_extension_Some:
  "search [Atom (Lit 0x2E), OneOrMore Dot, EndOfInput] s = Some (i, k)
     \<longleftrightarrow> extensionAt s i \<and> (\<forall>j < i. \<not> extensionAt s j) \<and> k = length s - i"
proof (induction s arbitrary: i)
  case Nil
  then show ?case by (auto simp: matchHere_extension extensionAt_def)
next
  case (Cons x xs)
  show ?case
  proof (cases "extensionAt (x # xs) 0")
    case True
    then have "search [Atom (Lit 0x2E), OneOrMore Dot, EndOfInput] (x # xs) = Some (0, length (x # xs))"
      by (simp add: matchHere_extension del: matchHere.simps)
    with True show ?thesis
      by (cases i) auto
  next
    case False
    then have s: "search [Atom (Lit 0x2E), OneOrMore Dot, EndOfInput] (x # xs) =
        map_option (\<lambda>(i, k). (Suc i, k)) (search [Atom (Lit 0x2E), OneOrMore Dot, EndOfInput] xs)"
      by (simp add: matchHere_extension del: matchHere.simps)
    show ?thesis
    proof (cases i)
      case 0
      with False s show ?thesis by auto
    next
      case (Suc i')
      have "(\<forall>j < Suc i'. \<not> extensionAt (x # xs) j) \<longleftrightarrow> (\<forall>j < i'. \<not> extensionAt xs j)"
        using False by (auto simp: All_less_Suc2 extensionAt_Suc)
      with Suc s Cons.IH [of i'] show ?thesis
        by (auto simp: extensionAt_Suc)
    qed
  qed
qed

lemma extensionAt_no_terminator:
  "\<forall>c \<in> set s. \<not> isLineTerminator c \<Longrightarrow> extensionAt s i = dotFollowedAt s i"
  by (auto simp: extensionAt_def dotFollowedAt_def dest: in_set_dropD)

text \<open>
  Claim C10, as stated, fails on a name with a line terminator after its first \<open>.\<close>: in
  \<open>a.b\<newline>c.d\<close> the first \<open>.\<close> followed by a character is at position \<open>1\<close>, and the
  result is \<open>a.b\<newline>c\<close>, not \<open>a\<close>; \<open>a.b\<newline>\<close> is returned unchanged.
\<close>

theorem stripExtension_line_terminator_counterexample:
  "dotFollowedAt (utf16 ''a.b\<newline>c.d'') 1
   \<and> \<not> dotFollowedAt (utf16 ''a.b\<newline>c.d'') 0
   \<and> stripExtension (utf16 ''a.b\<newline>c.d'') = utf16 ''a.b\<newline>c''
   \<and> stripExtension (utf16 ''a.b\<newline>c.d'') \<noteq> take 1 (utf16 ''a.b\<newline>c.d'')
   \<and> dotFollowedAt (utf16 ''a.b\<newline>'') 1
   \<and> \<not> dotFollowedAt (utf16 ''a.b\<newline>'') 0
   \<and> stripExtension (utf16 ''a.b\<newline>'') = utf16 ''a.b\<newline>''
   \<and> stripExtension (utf16 ''a.b\<newline>'') \<noteq> take 1 (utf16 ''a.b\<newline>'')"
  by (simp add: stripExtension_def replace_def utf16_def isLineTerminator_def dotFollowedAt_def)

text \<open>
  Claim C10, amended. \<open>stripExtension\<close> removes the suffix that starts at the first \<open>.\<close>
  followed, up to the end of the string, by at least one code unit and by no line
  terminator; it returns its input unchanged when the string has no such \<open>.\<close>. On a
  string without line terminators that \<open>.\<close> is the first one followed by at least one
  code unit, and the input is unchanged when no \<open>.\<close> is followed by a code unit.
\<close>

theorem stripExtension_first_extension:
  "(extensionAt s i \<and> (\<forall>j < i. \<not> extensionAt s j) \<longrightarrow> stripExtension s = take i s)
   \<and> ((\<forall>i < length s. \<not> extensionAt s i) \<longrightarrow> stripExtension s = s)
   \<and> ((\<forall>c \<in> set s. \<not> isLineTerminator c) \<longrightarrow>
        (dotFollowedAt s i \<and> (\<forall>j < i. \<not> dotFollowedAt s j) \<longrightarrow> stripExtension s = take i s)
        \<and> ((\<forall>i < length s. \<not> dotFollowedAt s i) \<longrightarrow> stripExtension s = s))"
proof -
  have 1: "stripExtension s = take i s" if "extensionAt s i" "\<forall>j < i. \<not> extensionAt s j" for i
  proof -
    from that have "search [Atom (Lit 0x2E), OneOrMore Dot, EndOfInput] s = Some (i, length s - i)"
      by (simp add: search_extension_Some)
    moreover from that have "i < length s" by (simp add: extensionAt_def)
    ultimately show ?thesis
      by (simp add: stripExtension_def replace_def)
  qed
  have 2: "stripExtension s = s" if "\<forall>i < length s. \<not> extensionAt s i"
  proof -
    from that have "search [Atom (Lit 0x2E), OneOrMore Dot, EndOfInput] s = None"
      by (simp add: search_extension_None)
    then show ?thesis
      by (simp add: stripExtension_def replace_def)
  qed
  show ?thesis
    using 1 2 by (auto simp: extensionAt_no_terminator)
qed

theorem stripExtension_first_extension_witness:
  "extensionAt (utf16 ''a.b.c'') 1
   \<and> \<not> extensionAt (utf16 ''a.b.c'') 0
   \<and> stripExtension (utf16 ''a.b.c'') = utf16 ''a''
   \<and> stripExtension (utf16 ''a.'') = utf16 ''a.''"
proof -
  have e: "extensionAt (utf16 ''a.b.c'') 1" and n: "\<not> extensionAt (utf16 ''a.b.c'') 0"
    by (simp_all add: extensionAt_def utf16_def isLineTerminator_def)
  from n have "extensionAt (utf16 ''a.b.c'') 1 \<and> (\<forall>j < 1. \<not> extensionAt (utf16 ''a.b.c'') j)"
    using e by simp
  with stripExtension_first_extension [of "utf16 ''a.b.c''" 1]
  have "stripExtension (utf16 ''a.b.c'') = take 1 (utf16 ''a.b.c'')"
    by blast
  then have 1: "stripExtension (utf16 ''a.b.c'') = utf16 ''a''"
    by (simp add: utf16_def)
  have "\<forall>i < length (utf16 ''a.''). \<not> extensionAt (utf16 ''a.'') i"
    by (auto simp: extensionAt_def utf16_def)
  with stripExtension_first_extension [of "utf16 ''a.''" 0]
  have 2: "stripExtension (utf16 ''a.'') = utf16 ''a.''"
    by blast
  from e n 1 2 show ?thesis by simp
qed

end
